theory Spec2Isabelle
  imports Main "HOL-Library.Word" "HOL-Library.Signed_Division"
begin

unbundle bit_operations_syntax

section \<open>Machine types and failures\<close>

type_synonym uint8_t = "8 word"
type_synonym uint16_t = "16 word"
type_synonym uint32_t = "32 word"
type_synonym int64_t = "64 word"

text \<open>
  The C program has no error values: it reads and writes raw memory. Every way in
  which a function of \<^verbatim>\<open>bmpsss.c\<close> can leave defined behaviour is a constructor
  here, and the functions below return \<open>error + 'a\<close>.
  \<^item> \<open>OutOfBounds\<close>: an index beyond the allocated array.
  \<^item> \<open>Uninitialised\<close>: a local variable read before any assignment.
  \<^item> \<open>DivByZero\<close>: integer division by zero.
  \<^item> \<open>Inexact\<close>: a \<^verbatim>\<open>double\<close> computation whose operands leave the range
    \<open>[0, 2^53)\<close> in which every integer is a \<^verbatim>\<open>double\<close>; what the program
    computes from there on depends on rounding and is not modelled.
\<close>

datatype error = OutOfBounds | Uninitialised | DivByZero | Inexact

text \<open>A \<^verbatim>\<open>for\<close> loop whose body can fail: the first failure ends it.\<close>

fun foldE :: "('a \<Rightarrow> 's \<Rightarrow> error + 's) \<Rightarrow> 'a list \<Rightarrow> 's \<Rightarrow> error + 's" where
  "foldE f [] s = Inr s"
| "foldE f (x # xs) s = (case f x s of Inl e \<Rightarrow> Inl e | Inr s' \<Rightarrow> foldE f xs s')"

section \<open>The pseudo-random generator\<close>

text \<open>
  \<^verbatim>\<open>rseed\<close> is a global \<^verbatim>\<open>int64_t\<close>; here it is passed and returned. The
  multiplication in \<^verbatim>\<open>nextbyte\<close> exceeds 63 bits; it is modelled as the
  two's-complement wrap-around of a 64-bit word, and \<^verbatim>\<open>>>\<close> on \<^verbatim>\<open>int64_t\<close> as the
  arithmetic shift.
\<close>

definition setseed :: "int64_t \<Rightarrow> int64_t" where
  "setseed s = (s XOR 25214903917) AND 281474976710655"

definition nextbyte :: "int64_t \<Rightarrow> int64_t \<times> 32 word" where
  "nextbyte rseed =
     (let rseed' = (rseed * 25214903917 + 11) AND 281474976710655;
          n = signed_drop_bit (48 - 31) rseed'
      in (rseed', ucast (signed_drop_bit 31 (256 * n))))"

text \<open>The loop of \<^verbatim>\<open>randomtable\<close>: \<^verbatim>\<open>table[i] = nextbyte()\<close> for \<open>tablesize\<close> bytes.\<close>

fun filltable :: "nat \<Rightarrow> int64_t \<Rightarrow> uint8_t list" where
  "filltable 0 rseed = []"
| "filltable (Suc m) rseed =
     (let (rseed', b) = nextbyte rseed in ucast b # filltable m rseed')"

definition randomtable :: "uint32_t \<Rightarrow> uint16_t \<Rightarrow> uint8_t list" where
  "randomtable tablesize seed = filltable (unat tablesize) (setseed (ucast seed))"

text \<open>
  The generator as the specification words it, on unbounded integers: a 48-bit state
  \<open>S\<close>, \<open>seed(s)\<close>, the state update of \<open>nextByte()\<close> and the byte it returns.
\<close>

definition spec_seed :: "int \<Rightarrow> int" where
  "spec_seed s = (s XOR 25214903917) AND (2 ^ 48 - 1)"

definition spec_next_state :: "int \<Rightarrow> int" where
  "spec_next_state S = (S * 25214903917 + 11) AND (2 ^ 48 - 1)"

definition spec_byte :: "int \<Rightarrow> int" where
  "spec_byte S = drop_bit 31 (256 * drop_bit 17 S)"

section \<open>Arithmetic modulo 257\<close>

definition PRIME :: int where
  "PRIME = 257"

definition modinv :: "int list" where
  "modinv =
   [0, 1, 129, 86, 193, 103, 43, 147, 225, 200, 180, 187, 150, 178, 202, 120,
    241, 121, 100, 230, 90, 49, 222, 190, 75, 72, 89, 238, 101, 195, 60, 199,
    249, 148, 189, 235, 50, 132, 115, 145, 45, 163, 153, 6, 111, 40, 95, 175,
    166, 21, 36, 126, 173, 97, 119, 243, 179, 248, 226, 61, 30, 59, 228, 102,
    253, 87, 74, 234, 223, 149, 246, 181, 25, 169, 66, 24, 186, 247, 201, 244,
    151, 165, 210, 96, 205, 127, 3, 65, 184, 26, 20, 209, 176, 152, 216, 46, 83,
    53, 139, 135, 18, 28, 63, 5, 215, 164, 177, 245, 188, 224, 250, 44, 218,
    116, 124, 38, 113, 134, 159, 54, 15, 17, 158, 140, 114, 220, 51, 85, 255, 2,
    172, 206, 37, 143, 117, 99, 240, 242, 203, 98, 123, 144, 219, 133, 141, 39,
    213, 7, 33, 69, 12, 80, 93, 42, 252, 194, 229, 239, 122, 118, 204, 174, 211,
    41, 105, 81, 48, 237, 231, 73, 192, 254, 130, 52, 161, 47, 92, 106, 13, 56,
    10, 71, 233, 191, 88, 232, 76, 11, 108, 34, 23, 183, 170, 4, 155, 29, 198,
    227, 196, 31, 9, 78, 14, 138, 160, 84, 131, 221, 236, 91, 82, 162, 217, 146,
    251, 104, 94, 212, 112, 142, 125, 207, 22, 68, 109, 8, 58, 197, 62, 156, 19,
    168, 185, 182, 67, 35, 208, 167, 27, 157, 136, 16, 137, 55, 79, 107, 70, 77,
    57, 32, 110, 214, 154, 64, 171, 128, 256]"

section \<open>Bitmaps\<close>

record BMPheader =
  idbytes :: "uint8_t list"
  fsize :: uint32_t
  unused1 :: uint16_t
  unused2 :: uint16_t
  offset :: uint32_t

record DIBheader =
  hsize :: uint32_t
  width :: uint32_t
  height :: "32 word"
  nplanes :: uint16_t
  depth :: uint16_t
  compression :: uint32_t
  pixelarraysize :: uint32_t
  hres :: uint32_t
  vres :: uint32_t
  ncolors :: uint32_t
  nimpcolors :: uint32_t

record Bitmap =
  bmpheader :: BMPheader
  dibheader :: DIBheader
  palette :: "uint8_t list"
  imgpixels :: "uint8_t list"

definition PIXEL_ARRAY_OFFSET :: uint32_t where
  "PIXEL_ARRAY_OFFSET = 14 + 40 + 1024"

definition bmpimagesize :: "Bitmap \<Rightarrow> uint32_t" where
  "bmpimagesize bp =
     (let sz = fsize (bmpheader bp)
      in if sz > 0 then fsize (bmpheader bp) - offset (bmpheader bp)
         else pixelarraysize (dibheader bp))"

section \<open>The whitening mask\<close>

text \<open>
  \<^verbatim>\<open>xorbmpwithrandomtable\<close> walks \<open>imgsize\<close> bytes of the pixel buffer, however long
  the buffer is: a buffer shorter than the header says is read out of bounds.
\<close>

definition xorbmpwithrandomtable :: "Bitmap \<Rightarrow> uint16_t \<Rightarrow> error + Bitmap" where
  "xorbmpwithrandomtable bmp seed =
     (let imgsize = bmpimagesize bmp;
          table = randomtable imgsize seed
      in if unat imgsize > length (imgpixels bmp) then Inl OutOfBounds
         else Inr (bmp\<lparr>imgpixels :=
                map2 (XOR) (take (unat imgsize) (imgpixels bmp)) table
                @ drop (unat imgsize) (imgpixels bmp)\<rparr>))"

section \<open>Building bitmaps\<close>

text \<open>The default greyscale palette: entry \<open>i\<close> is the four bytes \<open>i, i, i, 0\<close>.\<close>

definition initpalette :: "uint8_t list" where
  "initpalette = concat (map (\<lambda>i. [of_nat i, of_nat i, of_nat i, 0]) [0..<256])"

text \<open>
  \<^verbatim>\<open>((BITS_PER_PIXEL * width + 31)/32) * 4 * height\<close> in \<^verbatim>\<open>uint32_t\<close>: the \<^verbatim>\<open>int32_t\<close> height
  is converted to unsigned, and every operation wraps at 32 bits.
\<close>

definition calculatepixelarraysize :: "uint32_t \<Rightarrow> 32 word \<Rightarrow> uint32_t" where
  "calculatepixelarraysize w h = ((8 * w + 31) div 32) * 4 * h"

text \<open>
  Modelled from the spec: \<^verbatim>\<open>xmalloc\<close> of \<^verbatim>\<open>util.c\<close> is not part of the sources at hand;
  the specification has \<^verbatim>\<open>newBitmap\<close> construct the bitmap with zeroed pixels, so the fresh
  buffer is \<open>pixelarraysz\<close> zero bytes.
\<close>

definition newbitmaphelper ::
  "uint32_t \<Rightarrow> 32 word \<Rightarrow> uint16_t \<Rightarrow> uint16_t \<Rightarrow> uint32_t \<Rightarrow> Bitmap" where
  "newbitmaphelper w h seed shadnum pixelarraysz =
     \<lparr>bmpheader = \<lparr>idbytes = [66, 77], fsize = PIXEL_ARRAY_OFFSET + pixelarraysz,
                    unused1 = seed, unused2 = shadnum, offset = PIXEL_ARRAY_OFFSET\<rparr>,
      dibheader = \<lparr>hsize = 40, width = w, height = h, nplanes = 1, depth = 8,
                    compression = 0, pixelarraysize = pixelarraysz, hres = 0, vres = 0,
                    ncolors = 0, nimpcolors = 0\<rparr>,
      palette = initpalette,
      imgpixels = replicate (unat pixelarraysz) 0\<rparr>"

definition newbitmap :: "uint32_t \<Rightarrow> 32 word \<Rightarrow> uint16_t \<Rightarrow> Bitmap" where
  "newbitmap w h seed = newbitmaphelper w h seed 0 (calculatepixelarraysize w h)"


text \<open>
  \<^verbatim>\<open>findclosestpair\<close> starts at \<^verbatim>\<open>floor(sqrt(x))\<close>, computed in \<^verbatim>\<open>double\<close>; for a 32-bit
  \<open>x\<close> that is the integer square root, the largest \<open>y\<close> with \<open>y * y \<le> x\<close>. The loop
  runs \<open>y\<close> down to 3 and assigns \<^verbatim>\<open>*width\<close> and \<^verbatim>\<open>*height\<close> at the first divisor; when
  there is none it assigns nothing, which is \<open>None\<close> here, and the caller's variables keep
  what they held.
\<close>

fun sqrtloop :: "nat \<Rightarrow> nat \<Rightarrow> nat" where
  "sqrtloop x 0 = 0"
| "sqrtloop x (Suc y) = (if Suc y * Suc y \<le> x then Suc y else sqrtloop x y)"




section \<open>Hiding a shadow in a carrier and reading it back\<close>








section \<open>The sharing engine\<close>

text \<open>A \<^verbatim>\<open>for\<close> loop that fills an array, one fallible computation per cell.\<close>

fun mapE :: "('a \<Rightarrow> error + 'b) \<Rightarrow> 'a list \<Rightarrow> error + 'b list" where
  "mapE f [] = Inr []"
| "mapE f (x # xs) =
     (case f x of Inl e \<Rightarrow> Inl e
      | Inr y \<Rightarrow> (case mapE f xs of Inl e \<Rightarrow> Inl e | Inr ys \<Rightarrow> Inr (y # ys)))"















section \<open>The reconstruction engine\<close>

text \<open>
  The matrix of \<^verbatim>\<open>revealsecret\<close> and \<^verbatim>\<open>findcoefficients\<close> holds C \<^verbatim>\<open>int\<close>s. They are
  modelled as unbounded integers, with the two's-complement wrap-around of a 32-bit
  \<^verbatim>\<open>int\<close> written out after each multiplication and subtraction (ISO C leaves
  signed overflow undefined). \<^verbatim>\<open>%\<close> on \<^verbatim>\<open>int\<close> truncates towards zero: \<open>smod\<close>.
\<close>

definition wrap32 :: "int \<Rightarrow> int" where
  "wrap32 x = signed_take_bit 31 x"

text \<open>
  Modelled from the spec: \<^verbatim>\<open>mod\<close> of \<^verbatim>\<open>util.h\<close> is not part of the sources at hand; the
  specification describes \<^verbatim>\<open>mod(x, 257)\<close> as the Euclidean remainder, never negative, also
  for a negative \<open>x\<close>.
\<close>

definition mod_util :: "int \<Rightarrow> int \<Rightarrow> int" where
  "mod_util x m = x mod m"

text \<open>
  A row of the matrix for pixel \<open>i\<close>: \<^verbatim>\<open>mat[j][0] = 1\<close>, then \<^verbatim>\<open>mat[j][t] = value;
  value *= unused2\<close> for \<open>t = 1 .. k - 1\<close>, then \<^verbatim>\<open>mat[j][k] = sp->imgpixels[i]\<close>. Nothing
  is reduced modulo 257 here.
\<close>

fun powers :: "int \<Rightarrow> int \<Rightarrow> nat \<Rightarrow> int list" where
  "powers val x 0 = []"
| "powers val x (Suc m) = val # powers (wrap32 (val * x)) x m"

definition matrixrow :: "nat \<Rightarrow> nat \<Rightarrow> Bitmap \<Rightarrow> error + int list" where
  "matrixrow k i sp =
     (let x = uint (unused2 (bmpheader sp))
      in if i \<ge> length (imgpixels sp) then Inl OutOfBounds
         else Inr (1 # powers x x (k - 1) @ [uint (imgpixels sp ! i)]))"

text \<open>
  \<^verbatim>\<open>findcoefficients\<close>, first phase: for each column \<open>j\<close>, for each row \<open>i\<close> from \<open>k - 1\<close>
  down to \<open>j + 1\<close>, the multiplier \<open>a\<close> is computed with \<^verbatim>\<open>modinv[mat[i-1][j]]\<close>, an array of
  257 entries, and the entries \<open>t = j .. k\<close> of row \<open>i\<close> are replaced.
\<close>

definition elimentry :: "nat \<Rightarrow> int \<Rightarrow> nat \<Rightarrow> int list list \<Rightarrow> int list list" where
  "elimentry i a t mat =
     (let temp = wrap32 (mat ! i ! t - wrap32 (mat ! (i - 1) ! t * a) smod PRIME)
      in mat[i := (mat ! i)[t := mod_util temp PRIME]])"

definition elimrow :: "nat \<Rightarrow> nat \<Rightarrow> nat \<Rightarrow> int list list \<Rightarrow> error + int list list" where
  "elimrow k j i mat =
     (let p = mat ! (i - 1) ! j
      in if p < 0 \<or> 257 \<le> p then Inl OutOfBounds
         else let a = wrap32 (mat ! i ! j * modinv ! nat p)
              in Inr (fold (elimentry i a) [j..<k + 1] mat))"

definition elimcolumn :: "nat \<Rightarrow> nat \<Rightarrow> int list list \<Rightarrow> error + int list list" where
  "elimcolumn k j mat = foldE (elimrow k j) (rev [j + 1..<k]) mat"

text \<open>Second phase: for each row \<open>i\<close> from \<open>k - 1\<close> down to 1.\<close>

definition backentry :: "nat \<Rightarrow> nat \<Rightarrow> nat \<Rightarrow> int list list \<Rightarrow> int list list" where
  "backentry k i t mat =
     (let temp = wrap32 (mat ! t ! k - wrap32 (mat ! i ! k * mat ! t ! i) smod PRIME)
      in mat[t := (mat ! t)[k := mod_util temp PRIME, i := 0]])"

definition backrow :: "nat \<Rightarrow> nat \<Rightarrow> int list list \<Rightarrow> error + int list list" where
  "backrow k i mat =
     (let p = mat ! i ! i
      in if p < 0 \<or> 257 \<le> p then Inl OutOfBounds
         else let mat1 = mat[i := (mat ! i)[k := wrap32 (mat ! i ! k * modinv ! nat p) smod PRIME]];
                  mat2 = mat1[i := (mat1 ! i)[i := wrap32 (mat1 ! i ! i * modinv ! nat (mat1 ! i ! i)) smod PRIME]]
              in Inr (fold (backentry k i) (rev [0..<i]) mat2))"

text \<open>
  The matrix is allocated by \<^verbatim>\<open>revealsecret\<close> as \<open>k\<close> rows of \<open>k + 1\<close> \<^verbatim>\<open>int\<close>s; anything
  smaller would be indexed out of bounds. With \<open>k = 0\<close> the bound \<^verbatim>\<open>k-1\<close> of the first
  loop is \<open>-1\<close>, converted to \<^verbatim>\<open>size_t\<close>.
\<close>

definition findcoefficients :: "int list list \<Rightarrow> nat \<Rightarrow> error + int list list" where
  "findcoefficients mat k =
     (if k = 0 \<or> length mat < k \<or> \<not> list_all (\<lambda>row. k + 1 \<le> length row) (take k mat)
      then Inl OutOfBounds
      else case foldE (elimcolumn k) [0..<k - 1] mat of
             Inl e \<Rightarrow> Inl e
           | Inr mat' \<Rightarrow> foldE (backrow k) (rev [1..<k]) mat')"

text \<open>\<^verbatim>\<open>bmp->imgpixels[j] = mat[j % k][k]\<close>, an \<^verbatim>\<open>int\<close> stored into a byte.\<close>

definition storecoeff :: "int list list \<Rightarrow> nat \<Rightarrow> nat \<Rightarrow> uint8_t list \<Rightarrow> error + uint8_t list" where
  "storecoeff mat k j px =
     (if j \<ge> length px then Inl OutOfBounds
      else Inr (px[j := word_of_int (mat ! (j mod k) ! k)]))"

text \<open>The body of the loop over the shadow pixels \<open>i\<close>.\<close>

definition revealgroup :: "Bitmap list \<Rightarrow> nat \<Rightarrow> nat \<Rightarrow> uint8_t list \<Rightarrow> error + uint8_t list" where
  "revealgroup shadows k i px =
     (if length shadows < k then Inl OutOfBounds
      else case mapE (matrixrow k i) (take k shadows) of
             Inl e \<Rightarrow> Inl e
           | Inr mat \<Rightarrow>
               (case findcoefficients mat k of
                  Inl e \<Rightarrow> Inl e
                | Inr mat' \<Rightarrow> foldE (storecoeff mat' k) [i * k..<(i + 1) * k] px))"

definition revealsecret :: "Bitmap list \<Rightarrow> uint32_t \<Rightarrow> 32 word \<Rightarrow> uint16_t \<Rightarrow> error + Bitmap" where
  "revealsecret shadows w h k =
     (case shadows of
        [] \<Rightarrow> Inl OutOfBounds
      | s0 # _ \<Rightarrow>
          let pixels = pixelarraysize (dibheader s0);
              bmp = newbitmap w h (unused1 (bmpheader s0))
          in case foldE (revealgroup shadows (unat k)) [0..<unat pixels] (imgpixels bmp) of
               Inl e \<Rightarrow> Inl e
             | Inr px \<Rightarrow> xorbmpwithrandomtable (bmp\<lparr>imgpixels := px\<rparr>) (unused1 (bmpheader s0)))"

section \<open>Properties of the generator\<close>

lemma mask48_word: "(281474976710655::64 word) = mask 48"
  by (simp add: mask_eq_exp_minus_1)

lemma setseed_spec: "uint (setseed (ucast (s::16 word))) = spec_seed (uint s)"
  unfolding setseed_def spec_seed_def
  by (simp add: uint_and uint_xor uint_up_ucast is_up)

lemma next_state_spec: "uint (fst (nextbyte S)) = spec_next_state (uint S)"
proof -
  have "uint ((S * 25214903917 + 11) AND 281474976710655)
        = take_bit 48 (uint (S * 25214903917 + 11))"
    by (simp only: mask48_word unsigned_take_bit_eq flip: take_bit_eq_mask)
  also have "\<dots> = take_bit 48 (take_bit 64 (uint S * 25214903917 + 11))"
    by (simp add: uint_word_ariths take_bit_eq_mod mod_simps)
  also have "\<dots> = take_bit 48 (uint S * 25214903917 + 11)"
    by simp
  also have "\<dots> = spec_next_state (uint S)"
    by (simp only: spec_next_state_def take_bit_eq_mask mask_eq_exp_minus_1)
  finally show ?thesis by (simp add: nextbyte_def Let_def)
qed

lemma state_bound: "uint (fst (nextbyte S)) < 2 ^ 48"
  using and_mask_lt_2p[of "S * 25214903917 + 11" 48]
  by (simp only: nextbyte_def Let_def fst_conv mask48_word)

text \<open>On a value whose sign bit is clear the arithmetic shift is the logical one.\<close>

lemma signed_drop_bit_nonneg:
  fixes w :: "'a::len word"
  assumes "\<not> bit w (LENGTH('a) - 1)"
  shows "signed_drop_bit m w = drop_bit m w"
  using assms
  by (intro bit_word_eqI) (auto simp: bit_signed_drop_bit_iff bit_drop_bit_eq dest: bit_imp_le_length)

lemma uint_drop_bit_word: "uint (drop_bit m (w::'a::len word)) = drop_bit m (uint w)"
  by (simp add: unsigned_drop_bit_eq take_bit_eq_mod)

lemma small_not_msb:
  fixes w :: "64 word"
  assumes "uint w < 2 ^ 48"
  shows "\<not> bit w 63"
proof -
  have "uint w div 2 ^ 63 = 0"
    using assms by (intro div_pos_pos_trivial) simp_all
  then have "\<not> bit (uint w) 63"
    by (simp only: bit_iff_odd) simp
  then show ?thesis
    by (simp add: bit_uint_iff)
qed

lemma byte_spec:
  "uint (snd (nextbyte S)) = spec_byte (uint (fst (nextbyte S)))"
  "uint (snd (nextbyte S)) < 256"
proof -
  define r where "r = fst (nextbyte S)"
  define n where "n = drop_bit 17 r"
  define y where "y = drop_bit 31 (256 * n)"
  have r: "uint r < 2 ^ 48" unfolding r_def by (rule state_bound)
  have n: "uint n = drop_bit 17 (uint r)"
    by (simp add: n_def uint_drop_bit_word)
  have nb: "uint n < 2 ^ 31"
    using r by (simp add: n drop_bit_eq_div)
  have m: "uint (256 * n) = 256 * uint n"
    using nb by (simp add: uint_word_ariths)
  have m48: "uint (256 * n) < 2 ^ 48"
    using nb by (simp add: m)
  have y: "uint y = spec_byte (uint r)"
    by (simp add: y_def uint_drop_bit_word m n spec_byte_def)
  have yy: "uint y = drop_bit 31 (256 * uint n)"
    by (simp add: y_def uint_drop_bit_word m)
  have yb: "uint y < 256"
    using nb unfolding yy drop_bit_eq_div by simp
  have "snd (nextbyte S) = ucast (signed_drop_bit 31 (256 * signed_drop_bit 17 r))"
    by (simp add: nextbyte_def Let_def r_def)
  also have "\<dots> = ucast y"
    using small_not_msb[OF r] small_not_msb[OF m48]
    by (simp add: signed_drop_bit_nonneg y_def n_def)
  finally have s: "snd (nextbyte S) = ucast y" .
  have "uint (ucast y :: 32 word) = uint y"
    using yb by (simp add: unsigned_ucast_eq take_bit_int_eq_self)
  then show "uint (snd (nextbyte S)) = spec_byte (uint (fst (nextbyte S)))"
    "uint (snd (nextbyte S)) < 256"
    using y yb by (simp_all add: s r_def)
qed

lemma sint_byte: "sint (snd (nextbyte S)) = uint (snd (nextbyte S))"
proof -
  have "sint (snd (nextbyte S)) = signed_take_bit 31 (uint (snd (nextbyte S)))"
    by (simp add: sint_uint)
  also have "\<dots> = uint (snd (nextbyte S))"
    using byte_spec(2)[of S]
    by (intro signed_take_bit_int_eq_self) (auto intro: order_trans[of _ 0])
  finally show ?thesis .
qed

text \<open>
  Claim C6. The generator of the program is the 48-bit linear congruential generator of
  the specification, bit for bit: seeding with a 16-bit seed \<open>s\<close> leaves the state
  \<open>(s XOR 25214903917) AND (2^48 - 1)\<close>; from any state \<open>S\<close>, \<^verbatim>\<open>nextbyte\<close> leaves the state
  \<open>(S * 25214903917 + 11) AND (2^48 - 1)\<close> and returns \<open>(256 * (S' >> 17)) >> 31\<close> of that new
  state \<open>S'\<close>, an \<^verbatim>\<open>int\<close> between 0 and 255.
\<close>

theorem prng_matches_spec:
  "uint (setseed (ucast (s::uint16_t))) = spec_seed (uint s)
   \<and> uint (fst (nextbyte S)) = spec_next_state (uint S)
   \<and> sint (snd (nextbyte S)) = spec_byte (uint (fst (nextbyte S)))
   \<and> 0 \<le> sint (snd (nextbyte S)) \<and> sint (snd (nextbyte S)) \<le> 255"
proof (intro conjI)
  show "uint (setseed (ucast s)) = spec_seed (uint s)"
    by (rule setseed_spec)
  show "uint (fst (nextbyte S)) = spec_next_state (uint S)"
    by (rule next_state_spec)
  show "sint (snd (nextbyte S)) = spec_byte (uint (fst (nextbyte S)))"
    by (simp only: sint_byte byte_spec(1))
  show "0 \<le> sint (snd (nextbyte S))"
    by (simp only: sint_byte uint_nonnegative)
  show "sint (snd (nextbyte S)) \<le> 255"
    using byte_spec(2)[of S] by (simp add: sint_byte)
qed

section \<open>Properties of the inverse table\<close>

text \<open>
  Claim C7. The table \<^verbatim>\<open>modinv\<close> holds the multiplicative inverses modulo 257: for every
  \<open>i\<close> from 1 to 256, \<open>(i * modinv[i]) mod 257 = 1\<close>.
\<close>

theorem modinv_correct: "\<forall>i\<in>{1..256}. (i * modinv ! nat i) mod PRIME = 1"
  unfolding modinv_def PRIME_def by code_simp

theorem modinv_correct_witness: "(2::int) \<in> {1..256} \<and> (2 * modinv ! nat 2) mod PRIME = 1"
  using bspec[OF modinv_correct, of 2] by simp

section \<open>Properties of the whitening mask\<close>

lemma length_filltable: "length (filltable m s) = m"
  by (induction m arbitrary: s) (simp_all add: split_beta Let_def)

lemma length_randomtable: "length (randomtable sz seed) = unat sz"
  by (simp add: randomtable_def length_filltable)

lemma map2_xor_twice:
  fixes xs :: "uint8_t list"
  shows "length xs = length t \<Longrightarrow> map2 (XOR) (map2 (XOR) xs t) t = xs"
proof (induction xs arbitrary: t)
  case Nil
  then show ?case by simp
next
  case (Cons x xs)
  then obtain y ys where t: "t = y # ys" by (cases t) auto
  with Cons show ?case by (simp add: xor.assoc)
qed

text \<open>A bitmap as \<^verbatim>\<open>bmpfromfile\<close> reads one: four pixels, a file size of 1078 + 4.\<close>

definition tinybmp :: Bitmap where
  "tinybmp = \<lparr>bmpheader = \<lparr>idbytes = [66, 77], fsize = 1082, unused1 = 0, unused2 = 0, offset = 1078\<rparr>,
     dibheader = \<lparr>hsize = 40, width = 4, height = 1, nplanes = 1, depth = 8, compression = 0,
        pixelarraysize = 4, hres = 0, vres = 0, ncolors = 0, nimpcolors = 0\<rparr>,
     palette = [], imgpixels = [10, 20, 30, 40]\<rparr>"

text \<open>
  Claim C5. Masking twice with the same seed is the identity: for every bitmap \<open>I\<close> whose
  pixel buffer holds the \<^verbatim>\<open>bmpimagesize\<close> bytes its header announces, and every 16-bit
  seed \<open>s\<close>, \<^verbatim>\<open>xorbmpwithrandomtable\<close> succeeds on \<open>I\<close>, succeeds again on its result, and
  the second result is \<open>I\<close>: pixel buffer and headers.
\<close>

theorem mask_involution:
  assumes "unat (bmpimagesize I) \<le> length (imgpixels I)"
  shows "\<exists>I'. xorbmpwithrandomtable I s = Inr I' \<and> xorbmpwithrandomtable I' s = Inr I"
proof -
  define m where "m = unat (bmpimagesize I)"
  define t where "t = randomtable (bmpimagesize I) s"
  define I' where "I' = I\<lparr>imgpixels := map2 (XOR) (take m (imgpixels I)) t @ drop m (imgpixels I)\<rparr>"
  have lt: "length t = m" by (simp add: t_def m_def length_randomtable)
  have 1: "xorbmpwithrandomtable I s = Inr I'"
    using assms by (simp add: xorbmpwithrandomtable_def Let_def I'_def m_def t_def)
  have sz: "bmpimagesize I' = bmpimagesize I"
    by (simp add: bmpimagesize_def I'_def)
  have len: "length (imgpixels I') = length (imgpixels I)"
    using assms lt by (simp add: I'_def m_def)
  have tk: "take m (imgpixels I') = map2 (XOR) (take m (imgpixels I)) t"
    using assms lt by (simp add: I'_def m_def)
  have dr: "drop m (imgpixels I') = drop m (imgpixels I)"
    using assms lt by (simp add: I'_def m_def)
  have "map2 (XOR) (take m (imgpixels I')) t = take m (imgpixels I)"
    unfolding tk using assms lt by (intro map2_xor_twice) (simp add: m_def)
  then have 2: "xorbmpwithrandomtable I' s = Inr I"
    using assms len dr
    by (simp add: xorbmpwithrandomtable_def Let_def sz flip: m_def t_def) (simp add: I'_def)
  from 1 2 show ?thesis by blast
qed

theorem mask_involution_witness:
  "unat (bmpimagesize tinybmp) \<le> length (imgpixels tinybmp) \<and>
   (\<exists>I'. xorbmpwithrandomtable tinybmp 691 = Inr I' \<and> xorbmpwithrandomtable I' 691 = Inr tinybmp)"
  using mask_involution[of tinybmp 691]
  by (simp add: bmpimagesize_def tinybmp_def)

section \<open>Properties of hiding and retrieving\<close>

lemma foldE_append:
  "foldE f (xs @ ys) s = (case foldE f xs s of Inl e \<Rightarrow> Inl e | Inr s' \<Rightarrow> foldE f ys s')"
  by (induction xs arbitrary: s) (auto split: sum.splits)






























section \<open>Properties of the sharing engine\<close>

































section \<open>Properties of the loop over the groups\<close>











lemma sqrtloop_le: "sqrtloop x y \<le> y"
  by (induction y) auto










section \<open>A secret of 24 pixels shared among two\<close>















section \<open>Properties of the elimination\<close>

text \<open>A matrix of \<open>k\<close> rows and \<open>k + 1\<close> columns.\<close>

definition shape :: "nat \<Rightarrow> int list list \<Rightarrow> bool" where
  "shape k mat \<longleftrightarrow> length mat = k \<and> list_all (\<lambda>row. length row = k + 1) mat"

lemma shape_nth: "shape k mat \<Longrightarrow> r < k \<Longrightarrow> length (mat ! r) = k + 1"
  by (simp add: shape_def list_all_length)

lemma shape_length: "shape k mat \<Longrightarrow> length mat = k"
  by (simp add: shape_def)


lemma shape_update:
  "shape k mat \<Longrightarrow> shape k (mat[r := (mat ! r)[s := v]])"
proof (cases "r < length mat")
  case True
  assume "shape k mat"
  with True show ?thesis by (auto simp: shape_def list_all_length nth_list_update)
next
  case False
  assume "shape k mat"
  with False show ?thesis by (simp add: list_update_beyond)
qed

lemma nth_update2:
  "shape k mat \<Longrightarrow> r < k \<Longrightarrow> s \<le> k \<Longrightarrow>
     mat[r := (mat ! r)[s := v]] ! r' ! s' = (if r' = r \<and> s' = s then v else mat ! r' ! s')"
  by (auto simp: shape_def list_all_length nth_list_update)

text \<open>The new entry of row \<open>i\<close> from its old entry \<open>u\<close> and the entry \<open>v\<close> above it.\<close>

definition rowop :: "int \<Rightarrow> int \<Rightarrow> int \<Rightarrow> int" where
  "rowop a u v = mod_util (wrap32 (u - wrap32 (v * a) smod PRIME)) PRIME"

lemma elimentry_shape: "shape k mat \<Longrightarrow> shape k (elimentry i a t mat)"
  by (simp add: elimentry_def Let_def shape_update)

lemma elimentry_nth:
  "shape k mat \<Longrightarrow> i < k \<Longrightarrow> t \<le> k \<Longrightarrow>
     elimentry i a t mat ! r ! s =
       (if r = i \<and> s = t then rowop a (mat ! i ! t) (mat ! (i - 1) ! t) else mat ! r ! s)"
  by (simp add: elimentry_def Let_def nth_update2 rowop_def)

lemma elimfold:
  assumes "shape k mat" "0 < i" "i < k" "j + m \<le> k + 1"
  shows "shape k (fold (elimentry i a) [j..<j + m] mat) \<and>
     (\<forall>r s. fold (elimentry i a) [j..<j + m] mat ! r ! s =
        (if r = i \<and> j \<le> s \<and> s < j + m then rowop a (mat ! i ! s) (mat ! (i - 1) ! s)
         else mat ! r ! s))"
  using assms(4)
proof (induction m)
  case 0
  then show ?case using assms(1) by simp
next
  case (Suc m)
  let ?m1 = "fold (elimentry i a) [j..<j + m] mat"
  from Suc have sh: "shape k ?m1"
    and en: "\<forall>r s. ?m1 ! r ! s =
        (if r = i \<and> j \<le> s \<and> s < j + m then rowop a (mat ! i ! s) (mat ! (i - 1) ! s)
         else mat ! r ! s)"
    by auto
  have f: "fold (elimentry i a) [j..<j + Suc m] mat = elimentry i a (j + m) ?m1"
    by simp
  have t: "j + m \<le> k" using Suc.prems by simp
  have i1: "i - 1 \<noteq> i" using assms(2) by simp
  have "elimentry i a (j + m) ?m1 ! r ! s =
        (if r = i \<and> j \<le> s \<and> s < j + Suc m then rowop a (mat ! i ! s) (mat ! (i - 1) ! s)
         else mat ! r ! s)" for r s
    unfolding elimentry_nth[OF sh assms(3) t] using en i1 by (auto simp: less_Suc_eq)
  then show ?case unfolding f using elimentry_shape[OF sh] by blast
qed

lemma elimrow_Inr:
  assumes sh: "shape k mat" and i: "0 < i" "i < k" and j: "j \<le> k"
      and p: "0 \<le> mat ! (i - 1) ! j" "mat ! (i - 1) ! j < 257"
  shows "\<exists>mat'. elimrow k j i mat = Inr mat' \<and> shape k mat' \<and>
     (\<forall>r s. mat' ! r ! s =
        (if r = i \<and> j \<le> s \<and> s \<le> k
         then rowop (wrap32 (mat ! i ! j * modinv ! nat (mat ! (i - 1) ! j)))
                (mat ! i ! s) (mat ! (i - 1) ! s)
         else mat ! r ! s))"
proof -
  have u: "[j..<k + 1] = [j..<j + (k + 1 - j)]" using j by simp
  have b: "j + (k + 1 - j) \<le> k + 1" using j by simp
  from elimfold[OF sh i b] p show ?thesis
    unfolding elimrow_def Let_def u[symmetric] using j by (auto simp: not_le)
qed

text \<open>The new right-hand side of a row above row \<open>i\<close> in the second phase.\<close>

definition backop :: "int \<Rightarrow> int \<Rightarrow> int \<Rightarrow> int" where
  "backop v u c = mod_util (wrap32 (u - wrap32 (v * c) smod PRIME)) PRIME"

lemma backentry_shape: "shape k mat \<Longrightarrow> shape k (backentry k i t mat)"
proof -
  assume sh: "shape k mat"
  have "(mat ! t)[k := x, i := 0] = ((mat[t := (mat ! t)[k := x]]) ! t)[i := 0]" if "t < length mat" for x
    using that by simp
  then show ?thesis
  proof (cases "t < length mat")
    case True
    let ?m1 = "\<lambda>x. mat[t := (mat ! t)[k := x]]"
    have "mat[t := (mat ! t)[k := x, i := 0]] = (?m1 x)[t := (?m1 x ! t)[i := 0]]" for x
      using True by simp
    moreover have "shape k ((?m1 x)[t := (?m1 x ! t)[i := 0]])" for x
      by (intro shape_update sh)
    ultimately show ?thesis by (simp add: backentry_def Let_def)
  next
    case False
    then show ?thesis using sh by (simp add: backentry_def Let_def list_update_beyond)
  qed
qed

lemma backentry_nth:
  assumes "shape k mat" "t < k" "i < k"
  shows "backentry k i t mat ! r ! s =
       (if r = t \<and> s = i then 0
        else if r = t \<and> s = k then backop (mat ! i ! k) (mat ! t ! k) (mat ! t ! i)
        else mat ! r ! s)"
proof -
  have l: "length mat = k" "length (mat ! t) = k + 1"
    using assms shape_length shape_nth by auto
  show ?thesis
    using assms(2,3) l by (auto simp: backentry_def Let_def backop_def nth_list_update)
qed

lemma backfold:
  assumes "i < k"
  shows "shape k mat \<Longrightarrow> distinct ts \<Longrightarrow> \<forall>t\<in>set ts. t < i \<Longrightarrow>
     shape k (fold (backentry k i) ts mat) \<and>
     (\<forall>r s. fold (backentry k i) ts mat ! r ! s =
        (if r \<in> set ts \<and> s = i then 0
         else if r \<in> set ts \<and> s = k then backop (mat ! i ! k) (mat ! r ! k) (mat ! r ! i)
         else mat ! r ! s))"
proof (induction ts arbitrary: mat)
  case Nil
  then show ?case by simp
next
  case (Cons t ts)
  let ?m1 = "backentry k i t mat"
  have t: "t < k" "t < i" "t \<noteq> i" "t \<notin> set ts" using Cons.prems assms by auto
  have sh1: "shape k ?m1" using Cons.prems(1) by (rule backentry_shape)
  note e1 = backentry_nth[OF Cons.prems(1) t(1) assms]
  from Cons.IH[OF sh1] Cons.prems have sh: "shape k (fold (backentry k i) ts ?m1)"
    and en: "\<forall>r s. fold (backentry k i) ts ?m1 ! r ! s =
        (if r \<in> set ts \<and> s = i then 0
         else if r \<in> set ts \<and> s = k then backop (?m1 ! i ! k) (?m1 ! r ! k) (?m1 ! r ! i)
         else ?m1 ! r ! s)"
    by auto
  have "fold (backentry k i) ts ?m1 ! r ! s =
        (if r \<in> set (t # ts) \<and> s = i then 0
         else if r \<in> set (t # ts) \<and> s = k then backop (mat ! i ! k) (mat ! r ! k) (mat ! r ! i)
         else mat ! r ! s)" for r s
    unfolding en[rule_format] e1 using t assms by auto
  with sh show ?case by simp
qed

lemma backrow_Inr:
  assumes sh: "shape k mat" and i: "0 < i" "i < k"
      and p: "0 \<le> mat ! i ! i" "mat ! i ! i < 257"
  shows "\<exists>mat'. backrow k i mat = Inr mat' \<and> shape k mat' \<and>
     (\<forall>r s. mat' ! r ! s =
        (if r = i \<and> s = k then wrap32 (mat ! i ! k * modinv ! nat (mat ! i ! i)) smod PRIME
         else if r = i \<and> s = i then wrap32 (mat ! i ! i * modinv ! nat (mat ! i ! i)) smod PRIME
         else if r < i \<and> s = i then 0
         else if r < i \<and> s = k
           then backop (wrap32 (mat ! i ! k * modinv ! nat (mat ! i ! i)) smod PRIME)
                  (mat ! r ! k) (mat ! r ! i)
         else mat ! r ! s))"
proof -
  define p where "p = mat ! i ! i"
  define v where "v = wrap32 (mat ! i ! k * modinv ! nat p) smod PRIME"
  define mat1 where "mat1 = mat[i := (mat ! i)[k := v]]"
  define d where "d = wrap32 (mat1 ! i ! i * modinv ! nat (mat1 ! i ! i)) smod PRIME"
  define mat2 where "mat2 = mat1[i := (mat1 ! i)[i := d]]"
  define mat3 where "mat3 = fold (backentry k i) (rev [0..<i]) mat2"
  have sh1: "shape k mat1" unfolding mat1_def using sh by (rule shape_update)
  have sh2: "shape k mat2" unfolding mat2_def using sh1 by (rule shape_update)
  have e1: "mat1 ! r ! s = (if r = i \<and> s = k then v else mat ! r ! s)" for r s
    unfolding mat1_def using nth_update2[OF sh i(2), of k] by simp
  have e2: "mat2 ! r ! s = (if r = i \<and> s = i then d else mat1 ! r ! s)" for r s
    unfolding mat2_def using nth_update2[OF sh1 i(2), of i] i(2) by simp
  have d: "d = wrap32 (p * modinv ! nat p) smod PRIME"
    using i(2) by (simp add: d_def e1 p_def)
  have ds: "distinct (rev [0..<i])" "\<forall>t\<in>set (rev [0..<i]). t < i" by auto
  from backfold[OF i(2) sh2 ds] have sh3: "shape k mat3"
    and e3: "\<And>r s. mat3 ! r ! s =
        (if r \<in> set (rev [0..<i]) \<and> s = i then 0
         else if r \<in> set (rev [0..<i]) \<and> s = k
           then backop (mat2 ! i ! k) (mat2 ! r ! k) (mat2 ! r ! i)
         else mat2 ! r ! s)"
    unfolding mat3_def by auto
  have b: "backrow k i mat = Inr mat3"
    using p by (simp add: backrow_def Let_def not_le mat3_def mat2_def d_def mat1_def v_def p_def)
  have "mat3 ! r ! s =
        (if r = i \<and> s = k then v
         else if r = i \<and> s = i then wrap32 (p * modinv ! nat p) smod PRIME
         else if r < i \<and> s = i then 0
         else if r < i \<and> s = k then backop v (mat ! r ! k) (mat ! r ! i)
         else mat ! r ! s)" for r s
    using i(2) by (auto simp: e3 e2 e1 d)
  with b sh3 show ?thesis unfolding v_def p_def by blast
qed

lemma mod_util_range: "0 \<le> mod_util x PRIME \<and> mod_util x PRIME < 257"
  by (simp add: mod_util_def PRIME_def)

lemma rowop_range: "0 \<le> rowop a u v \<and> rowop a u v < 257"
  unfolding rowop_def by (rule mod_util_range)

lemma backop_range: "0 \<le> backop v u c \<and> backop v u c < 257"
  unfolding backop_def by (rule mod_util_range)

text \<open>The multiplier of row \<open>r\<close> in the pass over column \<open>j\<close>.\<close>

definition multiplier :: "int list list \<Rightarrow> nat \<Rightarrow> nat \<Rightarrow> int" where
  "multiplier mat j r = wrap32 (mat ! r ! j * modinv ! nat (mat ! (r - 1) ! j))"

lemma elimcolumn_part:
  assumes sh: "shape k mat" and j: "j < k"
      and p: "\<forall>r. j \<le> r \<and> r < k \<longrightarrow> 0 \<le> mat ! r ! j \<and> mat ! r ! j < 257"
  shows "n \<le> k - (j + 1) \<Longrightarrow>
     \<exists>mat'. foldE (elimrow k j) (rev [k - n..<k]) mat = Inr mat' \<and> shape k mat' \<and>
       (\<forall>r s. mat' ! r ! s =
          (if k - n \<le> r \<and> r < k \<and> j \<le> s \<and> s \<le> k
           then rowop (multiplier mat j r) (mat ! r ! s) (mat ! (r - 1) ! s)
           else mat ! r ! s))"
proof (induction n)
  case 0
  then show ?case using sh by simp
next
  case (Suc n)
  let ?i = "k - Suc n"
  have i: "0 < ?i" "?i < k" "j < ?i" "Suc ?i = k - n" using Suc.prems j by auto
  from Suc obtain m1 where f: "foldE (elimrow k j) (rev [k - n..<k]) mat = Inr m1"
    and sh1: "shape k m1"
    and e1: "\<And>r s. m1 ! r ! s =
          (if k - n \<le> r \<and> r < k \<and> j \<le> s \<and> s \<le> k
           then rowop (multiplier mat j r) (mat ! r ! s) (mat ! (r - 1) ! s)
           else mat ! r ! s)"
    by auto
  have same: "m1 ! r ! s = mat ! r ! s" if "r \<le> ?i" for r s
    using that i by (simp add: e1)
  have pv: "0 \<le> m1 ! (?i - 1) ! j" "m1 ! (?i - 1) ! j < 257"
    using p i by (simp_all add: same)
  have jk: "j \<le> k" using j by simp
  from elimrow_Inr[OF sh1 i(1,2) jk pv] obtain m2 where
    r: "elimrow k j ?i m1 = Inr m2" and sh2: "shape k m2"
    and e2: "\<And>r s. m2 ! r ! s =
        (if r = ?i \<and> j \<le> s \<and> s \<le> k
         then rowop (wrap32 (m1 ! ?i ! j * modinv ! nat (m1 ! (?i - 1) ! j)))
                (m1 ! ?i ! s) (m1 ! (?i - 1) ! s)
         else m1 ! r ! s)"
    by auto
  have u: "rev [?i..<k] = rev [k - n..<k] @ [?i]"
    using i by (simp add: upt_conv_Cons)
  have "m2 ! r ! s =
          (if ?i \<le> r \<and> r < k \<and> j \<le> s \<and> s \<le> k
           then rowop (multiplier mat j r) (mat ! r ! s) (mat ! (r - 1) ! s)
           else mat ! r ! s)" for r s
  proof (cases "r = ?i")
    case True
    then show ?thesis using i by (simp add: e2 same multiplier_def)
  next
    case False
    then have "?i \<le> r \<longleftrightarrow> k - n \<le> r" using i by auto
    then show ?thesis using False by (simp add: e2 e1)
  qed
  then show ?case
    unfolding u foldE_append using f r sh2 by simp
qed

lemma elimcolumn_Inr:
  assumes sh: "shape k mat" and j: "j < k"
      and p: "\<forall>r. j \<le> r \<and> r < k \<longrightarrow> 0 \<le> mat ! r ! j \<and> mat ! r ! j < 257"
  shows "\<exists>mat'. elimcolumn k j mat = Inr mat' \<and> shape k mat' \<and>
       (\<forall>r s. mat' ! r ! s =
          (if j < r \<and> r < k \<and> j \<le> s \<and> s \<le> k
           then rowop (multiplier mat j r) (mat ! r ! s) (mat ! (r - 1) ! s)
           else mat ! r ! s))"
proof -
  have n: "k - (j + 1) \<le> k - (j + 1)" by simp
  have e: "k - (k - (j + 1)) = j + 1" using j by simp
  from elimcolumn_part[OF sh j p n] show ?thesis
    unfolding elimcolumn_def e by (simp add: Suc_le_eq)
qed

text \<open>A valid index into \<^verbatim>\<open>modinv\<close>.\<close>

definition inrange :: "int \<Rightarrow> bool" where
  "inrange v \<longleftrightarrow> 0 \<le> v \<and> v < 257"

lemma inrange_rowop: "inrange (rowop a u v)"
  using rowop_range by (simp add: inrange_def)

lemma inrange_backop: "inrange (backop v u c)"
  using backop_range by (simp add: inrange_def)

lemma forward_total:
  assumes sh: "shape k mat" and c0: "\<forall>r<k. inrange (mat ! r ! 0)"
  shows "m < k \<Longrightarrow>
     \<exists>mat'. foldE (elimcolumn k) [0..<m] mat = Inr mat' \<and> shape k mat'
        \<and> (\<forall>r. m \<le> r \<and> r < k \<longrightarrow> inrange (mat' ! r ! m))
        \<and> (\<forall>r. 0 < r \<and> r \<le> m \<longrightarrow> inrange (mat' ! r ! r))
        \<and> (\<forall>s. mat' ! 0 ! s = mat ! 0 ! s)"
proof (induction m)
  case 0
  then show ?case using sh c0 by simp
next
  case (Suc m)
  then obtain m1 where f: "foldE (elimcolumn k) [0..<m] mat = Inr m1" and sh1: "shape k m1"
    and p1: "\<forall>r. m \<le> r \<and> r < k \<longrightarrow> inrange (m1 ! r ! m)"
    and d1: "\<forall>r. 0 < r \<and> r \<le> m \<longrightarrow> inrange (m1 ! r ! r)"
    and z1: "\<forall>s. m1 ! 0 ! s = mat ! 0 ! s"
    by auto
  have mk: "m < k" using Suc.prems by simp
  have p1': "\<forall>r. m \<le> r \<and> r < k \<longrightarrow> 0 \<le> m1 ! r ! m \<and> m1 ! r ! m < 257"
    using p1 by (simp add: inrange_def)
  from elimcolumn_Inr[OF sh1 mk p1'] obtain m2 where
    c: "elimcolumn k m m1 = Inr m2" and sh2: "shape k m2"
    and e2: "\<And>r s. m2 ! r ! s =
          (if m < r \<and> r < k \<and> m \<le> s \<and> s \<le> k
           then rowop (multiplier m1 m r) (m1 ! r ! s) (m1 ! (r - 1) ! s)
           else m1 ! r ! s)"
    by auto
  have "\<forall>r. Suc m \<le> r \<and> r < k \<longrightarrow> inrange (m2 ! r ! Suc m)"
    using Suc.prems by (auto simp: e2 inrange_rowop)
  moreover have "\<forall>r. 0 < r \<and> r \<le> Suc m \<longrightarrow> inrange (m2 ! r ! r)"
    using d1 Suc.prems by (auto simp: e2 inrange_rowop)
  moreover have "\<forall>s. m2 ! 0 ! s = mat ! 0 ! s"
    using z1 by (simp add: e2)
  ultimately show ?case
    using f c sh2 by (simp add: foldE_append)
qed

lemma backward_total:
  assumes sh: "shape k mat" and d: "\<forall>r. 0 < r \<and> r < k \<longrightarrow> inrange (mat ! r ! r)"
  shows "n < k \<Longrightarrow>
     \<exists>mat'. foldE (backrow k) (rev [k - n..<k]) mat = Inr mat' \<and> shape k mat'
        \<and> (\<forall>r. r < k - n \<longrightarrow> mat' ! r ! r = mat ! r ! r)"
proof (induction n)
  case 0
  then show ?case using sh by simp
next
  case (Suc n)
  let ?i = "k - Suc n"
  have i: "0 < ?i" "?i < k" "Suc ?i = k - n" using Suc.prems by auto
  from Suc obtain m1 where f: "foldE (backrow k) (rev [k - n..<k]) mat = Inr m1"
    and sh1: "shape k m1" and d1: "\<forall>r. r < k - n \<longrightarrow> m1 ! r ! r = mat ! r ! r"
    by auto
  have "inrange (m1 ! ?i ! ?i)" using d d1 i by simp
  then have pv: "0 \<le> m1 ! ?i ! ?i" "m1 ! ?i ! ?i < 257" by (simp_all add: inrange_def)
  from backrow_Inr[OF sh1 i(1,2) pv] obtain m2 where
    b: "backrow k ?i m1 = Inr m2" and sh2: "shape k m2"
    and e2: "\<And>r s. m2 ! r ! s =
        (if r = ?i \<and> s = k then wrap32 (m1 ! ?i ! k * modinv ! nat (m1 ! ?i ! ?i)) smod PRIME
         else if r = ?i \<and> s = ?i then wrap32 (m1 ! ?i ! ?i * modinv ! nat (m1 ! ?i ! ?i)) smod PRIME
         else if r < ?i \<and> s = ?i then 0
         else if r < ?i \<and> s = k
           then backop (wrap32 (m1 ! ?i ! k * modinv ! nat (m1 ! ?i ! ?i)) smod PRIME)
                  (m1 ! r ! k) (m1 ! r ! ?i)
         else m1 ! r ! s)"
    by auto
  have u: "rev [?i..<k] = rev [k - n..<k] @ [?i]"
    using i by (simp add: upt_conv_Cons)
  have "\<forall>r. r < ?i \<longrightarrow> m2 ! r ! r = mat ! r ! r"
    using d1 i by (auto simp: e2)
  then show ?case
    unfolding u foldE_append using f b sh2 by simp
qed

lemma shape_check:
  "shape k mat \<Longrightarrow> \<not> (length mat < k \<or> \<not> list_all (\<lambda>row. k + 1 \<le> length row) (take k mat))"
  by (auto simp: shape_def list_all_length)

lemma findcoefficients_total:
  assumes sh: "shape k mat" and k: "0 < k" and c0: "\<forall>r<k. inrange (mat ! r ! 0)"
  shows "\<exists>mat'. findcoefficients mat k = Inr mat' \<and> shape k mat'"
proof -
  have k1: "k - 1 < k" using k by simp
  from forward_total[OF sh c0 k1] obtain m1 where
    f: "foldE (elimcolumn k) [0..<k - 1] mat = Inr m1" and sh1: "shape k m1"
    and d1: "\<forall>r. 0 < r \<and> r \<le> k - 1 \<longrightarrow> inrange (m1 ! r ! r)"
    by blast
  have d: "\<forall>r. 0 < r \<and> r < k \<longrightarrow> inrange (m1 ! r ! r)" using d1 by auto
  from backward_total[OF sh1 d k1] obtain m2 where
    b: "foldE (backrow k) (rev [k - (k - 1)..<k]) m1 = Inr m2" and sh2: "shape k m2"
    by blast
  have "k - (k - 1) = 1" using k by simp
  with b have "foldE (backrow k) (rev [1..<k]) m1 = Inr m2" by simp
  with f sh2 shape_check[OF sh] k show ?thesis
    by (simp add: findcoefficients_def)
qed

lemma multiplier_zero_pivot: "mat ! (r - 1) ! j = 0 \<Longrightarrow> multiplier mat j r = 0"
  by (simp add: multiplier_def modinv_def wrap32_def)

text \<open>
  Claim C8, as the code has it. \<^verbatim>\<open>findcoefficients\<close> has no failure path for a zero
  pivot: for every matrix of \<open>k \<ge> 1\<close> rows and \<open>k + 1\<close> columns whose first column lies in
  \<open>[0, 257)\<close> (\<^verbatim>\<open>revealsecret\<close> fills it with ones) it returns a matrix. Where the pivot
  \<^verbatim>\<open>mat[i-1][j]\<close> is 0, the table gives \<^verbatim>\<open>modinv[0] = 0\<close>, the multiplier is 0, and the
  elimination goes on.
\<close>

theorem zero_pivot_not_detected:
  "(shape k mat \<and> 0 < k \<and> (\<forall>r<k. inrange (mat ! r ! 0)) \<longrightarrow>
      (\<exists>mat'. findcoefficients mat k = Inr mat' \<and> shape k mat'))
   \<and> (mat ! (r - 1) ! j = 0 \<longrightarrow> multiplier mat j r = 0)
   \<and> modinv ! nat 0 = 0"
  using findcoefficients_total multiplier_zero_pivot by (auto simp: modinv_def)

lemma wrap32_id: "- (2 ^ 31) \<le> v \<Longrightarrow> v < 2 ^ 31 \<Longrightarrow> wrap32 v = v"
  unfolding wrap32_def by (rule signed_take_bit_int_eq_self)

lemma wrap32_nonneg: "0 \<le> v \<Longrightarrow> v < 2 ^ 31 \<Longrightarrow> wrap32 v = v"
  by (rule wrap32_id) (auto intro: order_trans[of _ 0])




section \<open>Small reconstruction inputs\<close>


lemma wrap32_numeral: "wrap32 289 = 289" "wrap32 4 = 4" "wrap32 1 = 1" "wrap32 2 = 2" "wrap32 17 = 17"
  by (simp_all add: wrap32_nonneg)





text \<open>The matrix of two shadows that carry the same index 1, with the pixels 5 and 7.\<close>

definition singular2 :: "int list list" where
  "singular2 = [[1, 1, 5], [1, 1, 7]]"

lemma smod_257: "0 smod (257 :: int) = 0" "2 smod (257 :: int) = 2" "1 smod (257 :: int) = 1"
  by (simp_all add: signed_modulo_int_def)

lemma wrap32_small: "wrap32 0 = 0" "wrap32 6 = 6" "wrap32 5 = 5" "wrap32 7 = 7"
  by (simp_all add: wrap32_nonneg)

lemma modinv_01: "modinv ! 0 = 0" "modinv ! Suc 0 = 1"
  by (simp_all add: modinv_def)

lemma forward_singular2:
  "foldE (elimcolumn 2) [0..<2 - 1] singular2 = Inr [[1, 1, 5], [0, 0, 2]]"
  by (simp add: singular2_def elimcolumn_def elimrow_def elimentry_def upt_conv_Cons
      modinv_01 wrap32_numeral wrap32_small smod_257 mod_util_def PRIME_def)

lemma backward_singular2:
  "foldE (backrow 2) (rev [1..<2]) [[1, 1, 5], [0, 0, 2]] = Inr [[1, 0, 5], [0, 0, 0]]"
  by (simp add: backrow_def backentry_def upt_conv_Cons
      modinv_01 wrap32_numeral wrap32_small smod_257 mod_util_def PRIME_def)

text \<open>
  Claim C8 as the specification states it fails on this matrix: after the first phase
  the pivot \<^verbatim>\<open>mat[1][1]\<close> is 0, and \<^verbatim>\<open>findcoefficients\<close> still returns a result.
\<close>

theorem zero_pivot_counterexample:
  "foldE (elimcolumn 2) [0..<2 - 1] singular2 = Inr [[1, 1, 5], [0, 0, 2]]
   \<and> [[1, 1, 5], [0, 0, 2 :: int]] ! 1 ! 1 = 0
   \<and> findcoefficients singular2 2 = Inr [[1, 0, 5], [0, 0, 0]]"
proof -
  have "findcoefficients singular2 2 = Inr [[1, 0, 5], [0, 0, 0]]"
    unfolding findcoefficients_def using forward_singular2 backward_singular2
    by (simp add: singular2_def)
  with forward_singular2 show ?thesis by simp
qed

theorem zero_pivot_not_detected_witness:
  "shape 2 singular2 \<and> (0 :: nat) < 2 \<and> inrange (singular2 ! 0 ! 0) \<and> inrange (singular2 ! 1 ! 0)
   \<and> (\<exists>mat'. findcoefficients singular2 2 = Inr mat' \<and> shape 2 mat')
   \<and> [[1, 1, 5], [0, 0, 2 :: int]] ! (2 - 1) ! 1 = 0
   \<and> multiplier [[1, 1, 5], [0, 0, 2]] 1 2 = 0
   \<and> modinv ! nat 0 = 0"
proof -
  have h: "shape 2 singular2 \<and> (0 :: nat) < 2 \<and> inrange (singular2 ! 0 ! 0) \<and> inrange (singular2 ! 1 ! 0)"
    by (simp add: singular2_def shape_def inrange_def)
  then have h': "\<forall>r<2. inrange (singular2 ! r ! 0)"
    by (auto simp: less_2_cases_iff)
  have z: "[[1, 1, 5], [0, 0, 2 :: int]] ! (2 - 1) ! 1 = 0" by simp
  from zero_pivot_not_detected[where k = 2 and mat = singular2] h h'
  have a: "\<exists>mat'. findcoefficients singular2 2 = Inr mat' \<and> shape 2 mat'" by blast
  from zero_pivot_not_detected[where mat = "[[1, 1, 5], [0, 0, 2]]" and r = 2 and j = 1] z
  have b: "multiplier [[1, 1, 5], [0, 0, 2]] 1 2 = 0 \<and> modinv ! nat 0 = 0" by blast
  from h a z b show ?thesis by blast
qed

end
